theory Spec2Isabelle
  imports Complex_Main
begin

section \<open>Segment trees of \<open>baselines/common/operation.py\<close>\<close>

text \<open>
  The embedding follows the three classes \<open>SegmentTree\<close>, \<open>SumSegmentTree\<close> and
  \<open>MinSegmentTree\<close>. Python integers are \<open>int\<close>, \<open>//\<close> is \<open>div\<close> (both round towards
  minus infinity). The stored values are Python floats; they are modelled by exact
  numbers: \<open>real\<close> for the sum tree, and \<open>xfloat\<close> (a real or plus infinity) for the
  minimum tree. Rounding and NaN are outside the model.
\<close>

subsection \<open>Python list indexing\<close>

datatype error = IndexError

text \<open>\<open>xs[i]\<close>: a negative index counts from the end, anything else out of range raises.\<close>

definition py_getitem :: "'a list \<Rightarrow> int \<Rightarrow> error + 'a" where
  "py_getitem xs i =
     (if 0 \<le> i \<and> i < int (length xs) then Inr (xs ! nat i)
      else if - int (length xs) \<le> i \<and> i < 0 then Inr (xs ! nat (int (length xs) + i))
      else Inl IndexError)"

text \<open>\<open>xs[i] = v\<close>, with the same index rule.\<close>

definition py_setitem :: "'a list \<Rightarrow> int \<Rightarrow> 'a \<Rightarrow> error + 'a list" where
  "py_setitem xs i v =
     (if 0 \<le> i \<and> i < int (length xs) then Inr (xs[nat i := v])
      else if - int (length xs) \<le> i \<and> i < 0 then Inr (xs[nat (int (length xs) + i) := v])
      else Inl IndexError)"

subsection \<open>SegmentTree\<close>

record 'a SegmentTree =
  capacity :: int
  tree :: "'a list"
  operation :: "'a \<Rightarrow> 'a \<Rightarrow> 'a"

text \<open>\<open>__init__\<close>: \<open>range(2 * capacity)\<close> is empty for a capacity below one.\<close>

definition SegmentTree_init :: "int \<Rightarrow> ('a \<Rightarrow> 'a \<Rightarrow> 'a) \<Rightarrow> 'a \<Rightarrow> 'a SegmentTree" where
  "SegmentTree_init cap op init_value =
     \<lparr>capacity = cap, tree = replicate (nat (2 * cap)) init_value, operation = op\<rparr>"

text \<open>
  \<open>_operate_helper\<close>. The recursion of the source has no guard against a query that
  does not fit the node's range, where it never returns; so the result is an option,
  \<open>None\<close> for a call that does not return, \<open>Some (Inl e)\<close> for a raised error.
  The left operand is evaluated before the right one.
\<close>

partial_function (option) operate_helper ::
  "'a SegmentTree \<Rightarrow> int \<Rightarrow> int \<Rightarrow> int \<Rightarrow> int \<Rightarrow> int \<Rightarrow> (error + 'a) option" where
  "operate_helper t start end' node node_start node_end =
     (if start = node_start \<and> end' = node_end then Some (py_getitem (tree t) node)
      else
        let mid = (node_start + node_end) div 2 in
        if end' \<le> mid then operate_helper t start end' (2 * node) node_start mid
        else if mid + 1 \<le> start then operate_helper t start end' (2 * node + 1) (mid + 1) node_end
        else
          Option.bind (operate_helper t start mid (2 * node) node_start mid)
            (\<lambda>l. case l of
               Inl e \<Rightarrow> Some (Inl e)
             | Inr a \<Rightarrow>
                 Option.bind (operate_helper t (mid + 1) end' (2 * node + 1) (mid + 1) node_end)
                   (\<lambda>r. case r of
                      Inl e \<Rightarrow> Some (Inl e)
                    | Inr b \<Rightarrow> Some (Inr (operation t a b)))))"

declare operate_helper.simps [code]

text \<open>\<open>operate\<close>: \<open>end <= 0\<close> adds the capacity to \<open>end\<close>; then the end is made inclusive.\<close>

definition operate :: "'a SegmentTree \<Rightarrow> int \<Rightarrow> int \<Rightarrow> (error + 'a) option" where
  "operate t start end' =
     (let end1 = (if end' \<le> 0 then end' + capacity t else end');
          end2 = end1 - 1
      in operate_helper t start end2 1 0 (capacity t - 1))"

text \<open>
  The loop of \<open>__setitem__\<close>. The list is changed in place, so an error carries the
  tree as it is when the error is raised.
\<close>

function setitem_loop ::
  "'a SegmentTree \<Rightarrow> int \<Rightarrow> (error \<times> 'a SegmentTree) + 'a SegmentTree" where
  "setitem_loop t idx =
     (if idx \<ge> 1 then
        (case py_getitem (tree t) (2 * idx) of
           Inl e \<Rightarrow> Inl (e, t)
         | Inr l \<Rightarrow>
             (case py_getitem (tree t) (2 * idx + 1) of
                Inl e \<Rightarrow> Inl (e, t)
              | Inr r \<Rightarrow>
                  (case py_setitem (tree t) idx (operation t l r) of
                     Inl e \<Rightarrow> Inl (e, t)
                   | Inr xs \<Rightarrow> setitem_loop (t\<lparr>tree := xs\<rparr>) (idx div 2))))
      else Inr t)"
  by pat_completeness auto
termination
  by (relation "measure (\<lambda>(t, idx). nat idx)") auto

declare setitem_loop.simps [simp del]

text \<open>\<open>__setitem__\<close>\<close>

definition setitem ::
  "'a SegmentTree \<Rightarrow> int \<Rightarrow> 'a \<Rightarrow> (error \<times> 'a SegmentTree) + 'a SegmentTree" where
  "setitem t idx val =
     (let idx1 = idx + capacity t in
      case py_setitem (tree t) idx1 val of
        Inl e \<Rightarrow> Inl (e, t)
      | Inr xs \<Rightarrow> setitem_loop (t\<lparr>tree := xs\<rparr>) (idx1 div 2))"

text \<open>\<open>__getitem__\<close>\<close>

definition getitem :: "'a SegmentTree \<Rightarrow> int \<Rightarrow> error + 'a" where
  "getitem t idx = py_getitem (tree t) (capacity t + idx)"

subsection \<open>SumSegmentTree\<close>

definition SumSegmentTree :: "int \<Rightarrow> real SegmentTree" where
  "SumSegmentTree cap = SegmentTree_init cap (+) 0"


text \<open>
  The loop of \<open>retrieve\<close>, from any node \<open>idx\<close>. From a node below one the loop of the
  source need not stop, hence the option. The source reads \<open>tree[left]\<close> in the test
  and again in the subtraction; both reads give the value bound to \<open>l\<close> here.
\<close>

partial_function (option) retrieve_loop ::
  "real SegmentTree \<Rightarrow> int \<Rightarrow> real \<Rightarrow> (error + int) option" where
  "retrieve_loop t idx upperbound =
     (if idx < capacity t then
        (let left = 2 * idx; right = left + 1 in
         case py_getitem (tree t) left of
           Inl e \<Rightarrow> Some (Inl e)
         | Inr l \<Rightarrow>
             if l > upperbound then retrieve_loop t (2 * idx) upperbound
             else retrieve_loop t right (upperbound - l))
      else Some (Inr (idx - capacity t)))"

declare retrieve_loop.simps [code]

definition retrieve :: "real SegmentTree \<Rightarrow> real \<Rightarrow> (error + int) option" where
  "retrieve t upperbound = retrieve_loop t 1 upperbound"

subsection \<open>MinSegmentTree\<close>

text \<open>A float that is finite or \<open>float("inf")\<close>, with Python's \<open><\<close> on it.\<close>

datatype xfloat = Fin real | PInf

fun xless :: "xfloat \<Rightarrow> xfloat \<Rightarrow> bool" where
  "xless (Fin a) (Fin b) = (a < b)"
| "xless (Fin a) PInf = True"
| "xless PInf b = False"

text \<open>The builtin \<open>min(a, b)\<close>: the first argument unless the second is smaller.\<close>

definition py_min :: "xfloat \<Rightarrow> xfloat \<Rightarrow> xfloat" where
  "py_min a b = (if xless b a then b else a)"

definition MinSegmentTree :: "int \<Rightarrow> xfloat SegmentTree" where
  "MinSegmentTree cap = SegmentTree_init cap py_min PInf"

definition min_tree :: "xfloat SegmentTree \<Rightarrow> int \<Rightarrow> int \<Rightarrow> (error + xfloat) option" where
  "min_tree t start end' = operate t start end'"

subsection \<open>Specification notions\<close>

text \<open>The shape \<open>__init__\<close> gives the list and no method changes: \<open>2 * capacity\<close> slots.\<close>

definition wf_tree :: "'a SegmentTree \<Rightarrow> bool" where
  "wf_tree t = (length (tree t) = nat (2 * capacity t))"

text \<open>The fold invariant at one internal node, and at all of them, \<open>[1, capacity)\<close>.\<close>

definition node_ok :: "'a SegmentTree \<Rightarrow> int \<Rightarrow> bool" where
  "node_ok t i = (tree t ! nat i = operation t (tree t ! nat (2 * i)) (tree t ! nat (2 * i + 1)))"

definition fold_invariant :: "'a SegmentTree \<Rightarrow> bool" where
  "fold_invariant t = list_all (node_ok t) [1..capacity t - 1]"

text \<open>The nodes the loop of \<open>__setitem__\<close> visits from \<open>idx\<close>: \<open>idx\<close>, \<open>idx // 2\<close>, \<dots>, 1.\<close>

function ancestors :: "int \<Rightarrow> int list" where
  "ancestors idx = (if idx \<ge> 1 then idx # ancestors (idx div 2) else [])"
  by pat_completeness auto
termination
  by (relation "measure nat") auto

declare ancestors.simps [simp del]

text \<open>A sequence of \<open>tree[i] = v\<close> statements; the first error ends it.\<close>

fun set_all ::
  "'a SegmentTree \<Rightarrow> (int \<times> 'a) list \<Rightarrow> (error \<times> 'a SegmentTree) + 'a SegmentTree" where
  "set_all t [] = Inr t"
| "set_all t ((i, v) # rest) =
     (case setitem t i v of Inl e \<Rightarrow> Inl e | Inr t' \<Rightarrow> set_all t' rest)"

text \<open>The raw value at external index \<open>i\<close>, slot \<open>capacity + i\<close>.\<close>

definition leaf :: "'a SegmentTree \<Rightarrow> int \<Rightarrow> 'a" where
  "leaf t i = tree t ! nat (capacity t + i)"

text \<open>
  The naive linear fold over the raw leaves at \<open>start, \<dots>, end - 1\<close>, from \<open>e\<close>:
  \<open>acc = e; for i in range(start, end): acc = operation(acc, tree[capacity + i])\<close>.
\<close>

definition naive_fold :: "'a SegmentTree \<Rightarrow> 'a \<Rightarrow> int \<Rightarrow> int \<Rightarrow> 'a" where
  "naive_fold t e start end' = foldl (operation t) e (map (leaf t) [start..end' - 1])"


section \<open>Properties\<close>

subsection \<open>Auxiliary facts\<close>

lemma py_getitem_in: "0 \<le> i \<Longrightarrow> i < int (length xs) \<Longrightarrow> py_getitem xs i = Inr (xs ! nat i)"
  by (simp add: py_getitem_def)

lemma py_setitem_in: "0 \<le> i \<Longrightarrow> i < int (length xs) \<Longrightarrow> py_setitem xs i v = Inr (xs[nat i := v])"
  by (simp add: py_setitem_def)

lemma fold_invariant_iff:
  "fold_invariant t \<longleftrightarrow> (\<forall>i. 1 \<le> i \<and> i < capacity t \<longrightarrow> node_ok t i)"
  by (auto simp: fold_invariant_def list_all_iff)

lemma ancestors_bounds: "a \<in> set (ancestors x) \<Longrightarrow> 1 \<le> a \<and> a \<le> x"
proof (induction x rule: ancestors.induct)
  case (1 idx)
  show ?case
  proof (cases "idx \<ge> 1")
    case True
    with "1.prems" have "a = idx \<or> a \<in> set (ancestors (idx div 2))"
      by (simp add: ancestors.simps [of idx])
    then show ?thesis
    proof
      assume "a = idx" with True show ?thesis by simp
    next
      assume "a \<in> set (ancestors (idx div 2))"
      with "1.IH" True have "1 \<le> a \<and> a \<le> idx div 2" by simp
      with True show ?thesis by linarith
    qed
  next
    case False
    with "1.prems" show ?thesis by (simp add: ancestors.simps [of idx])
  qed
qed

lemma ancestors_parent:
  "a \<in> set (ancestors x) \<Longrightarrow> 1 \<le> a div 2 \<Longrightarrow> a div 2 \<in> set (ancestors x)"
proof (induction x rule: ancestors.induct)
  case (1 idx)
  show ?case
  proof (cases "idx \<ge> 1")
    case True
    with "1.prems" have "a = idx \<or> a \<in> set (ancestors (idx div 2))"
      by (simp add: ancestors.simps [of idx])
    then show ?thesis
    proof
      assume a: "a = idx"
      with "1.prems" have "idx div 2 \<in> set (ancestors (idx div 2))"
        by (simp add: ancestors.simps [of "idx div 2"])
      with a True show ?thesis by (simp add: ancestors.simps [of idx])
    next
      assume "a \<in> set (ancestors (idx div 2))"
      with "1.IH" True "1.prems" have "a div 2 \<in> set (ancestors (idx div 2))" by simp
      with True show ?thesis by (simp add: ancestors.simps [of idx])
    qed
  next
    case False
    with "1.prems" show ?thesis by (simp add: ancestors.simps [of idx])
  qed
qed

lemma ancestors_self: "1 \<le> x \<Longrightarrow> x \<in> set (ancestors x)"
  by (simp add: ancestors.simps [of x])

lemma setitem_loop_spec:
  "wf_tree t \<Longrightarrow> idx < capacity t \<Longrightarrow>
   \<exists>t'. setitem_loop t idx = Inr t' \<and> capacity t' = capacity t \<and> operation t' = operation t
      \<and> length (tree t') = length (tree t)
      \<and> (\<forall>j. int j \<notin> set (ancestors idx) \<longrightarrow> tree t' ! j = tree t ! j)
      \<and> (\<forall>a \<in> set (ancestors idx). node_ok t' a)"
proof (induction t idx rule: setitem_loop.induct)
  case (1 t idx)
  show ?case
  proof (cases "idx \<ge> 1")
    case False
    then show ?thesis
      by (simp add: setitem_loop.simps [of t idx] ancestors.simps [of idx])
  next
    case True
    from "1.prems" True have len: "int (length (tree t)) = 2 * capacity t"
      by (simp add: wf_tree_def)
    define l where "l = tree t ! nat (2 * idx)"
    define r where "r = tree t ! nat (2 * idx + 1)"
    define xs where "xs = (tree t)[nat idx := operation t l r]"
    define t1 where "t1 = t\<lparr>tree := xs\<rparr>"
    have g1: "py_getitem (tree t) (2 * idx) = Inr l"
      unfolding l_def using True "1.prems"(2) len by (intro py_getitem_in) auto
    have g2: "py_getitem (tree t) (2 * idx + 1) = Inr r"
      unfolding r_def using True "1.prems"(2) len by (intro py_getitem_in) auto
    have s1: "py_setitem (tree t) idx (operation t l r) = Inr xs"
      unfolding xs_def using True "1.prems"(2) len by (intro py_setitem_in) auto
    have unf: "setitem_loop t idx = setitem_loop t1 (idx div 2)"
      using True g1 g2 s1 by (simp add: setitem_loop.simps [of t idx] t1_def)
    have wf1: "wf_tree t1" using "1.prems"(1) by (simp add: wf_tree_def t1_def xs_def)
    have lt1: "idx div 2 < capacity t1" using True "1.prems"(2) by (simp add: t1_def)
    from "1.IH" [OF True g1 g2 s1] wf1 lt1 obtain t' where
      r: "setitem_loop t1 (idx div 2) = Inr t'" and
      c: "capacity t' = capacity t1" and
      o: "operation t' = operation t1" and
      n: "length (tree t') = length (tree t1)" and
      fr: "\<forall>j. int j \<notin> set (ancestors (idx div 2)) \<longrightarrow> tree t' ! j = tree t1 ! j" and
      ok: "\<forall>a \<in> set (ancestors (idx div 2)). node_ok t' a"
      unfolding t1_def by blast
    have anc: "set (ancestors idx) = insert idx (set (ancestors (idx div 2)))"
      using True by (simp add: ancestors.simps [of idx])
    have above: "\<And>j. idx \<le> j \<Longrightarrow> j \<notin> set (ancestors (idx div 2))"
      using ancestors_bounds [of _ "idx div 2"] True by force
    have frame: "\<forall>j. int j \<notin> set (ancestors idx) \<longrightarrow> tree t' ! j = tree t ! j"
    proof (intro allI impI)
      fix j assume j: "int j \<notin> set (ancestors idx)"
      with anc have "int j \<noteq> idx" and "int j \<notin> set (ancestors (idx div 2))" by auto
      with fr have "tree t' ! j = tree t1 ! j" by simp
      also have "\<dots> = tree t ! j" using \<open>int j \<noteq> idx\<close> True
        by (simp add: t1_def xs_def nth_list_update)
      finally show "tree t' ! j = tree t ! j" .
    qed
    have at_idx: "node_ok t' idx"
    proof -
      have i0: "int (nat idx) \<notin> set (ancestors (idx div 2))" using above [of idx] True by simp
      have i1: "int (nat (2 * idx)) \<notin> set (ancestors (idx div 2))"
        using above [of "2 * idx"] True by simp
      have i2: "int (nat (2 * idx + 1)) \<notin> set (ancestors (idx div 2))"
        using above [of "2 * idx + 1"] True by simp
      have "tree t' ! nat idx = tree t1 ! nat idx" using fr i0 by blast
      also have "\<dots> = operation t l r" using True "1.prems"(2) len
        by (simp add: t1_def xs_def)
      finally have a: "tree t' ! nat idx = operation t l r" .
      have "tree t' ! nat (2 * idx) = tree t1 ! nat (2 * idx)" using fr i1 by blast
      also have "\<dots> = l" using True by (simp add: t1_def xs_def l_def)
      finally have b: "tree t' ! nat (2 * idx) = l" .
      have "tree t' ! nat (2 * idx + 1) = tree t1 ! nat (2 * idx + 1)" using fr i2 by blast
      also have "\<dots> = r" using True by (simp add: t1_def xs_def r_def)
      finally have c': "tree t' ! nat (2 * idx + 1) = r" .
      show ?thesis using a b c' o by (simp add: node_ok_def t1_def)
    qed
    have post: "\<forall>a \<in> set (ancestors idx). node_ok t' a"
      using anc ok at_idx by auto
    show ?thesis
      using unf r c o n frame post by (simp add: t1_def xs_def)
  qed
qed

lemma setitem_spec:
  assumes wf: "wf_tree t" and lo: "0 \<le> i" and hi: "i < capacity t"
  shows "\<exists>t'. setitem t i v = Inr t' \<and> capacity t' = capacity t \<and> operation t' = operation t
      \<and> wf_tree t'
      \<and> tree t' ! nat (capacity t + i) = v
      \<and> (\<forall>j. int j \<noteq> capacity t + i \<and> int j \<notin> set (ancestors ((capacity t + i) div 2))
             \<longrightarrow> tree t' ! j = tree t ! j)
      \<and> (\<forall>a \<in> set (ancestors ((capacity t + i) div 2)). node_ok t' a)"
proof -
  define p where "p = i + capacity t"
  define xs where "xs = (tree t)[nat p := v]"
  define t1 where "t1 = t\<lparr>tree := xs\<rparr>"
  from wf lo hi have len: "int (length (tree t)) = 2 * capacity t"
    by (simp add: wf_tree_def)
  have s1: "py_setitem (tree t) p v = Inr xs"
    unfolding xs_def using lo hi len by (intro py_setitem_in) (auto simp: p_def)
  have unf: "setitem t i v = setitem_loop t1 (p div 2)"
    using s1 by (simp add: setitem_def p_def [symmetric] t1_def)
  have wf1: "wf_tree t1" using wf by (simp add: wf_tree_def t1_def xs_def)
  have lt1: "p div 2 < capacity t1" using lo hi by (simp add: t1_def p_def)
  from setitem_loop_spec [OF wf1 lt1] obtain t' where
    r: "setitem_loop t1 (p div 2) = Inr t'" and
    c: "capacity t' = capacity t1" and
    o: "operation t' = operation t1" and
    n: "length (tree t') = length (tree t1)" and
    fr: "\<forall>j. int j \<notin> set (ancestors (p div 2)) \<longrightarrow> tree t' ! j = tree t1 ! j" and
    ok: "\<forall>a \<in> set (ancestors (p div 2)). node_ok t' a"
    by blast
  have pn: "int (nat p) \<notin> set (ancestors (p div 2))"
    using ancestors_bounds [of p "p div 2"] lo hi by (auto simp: p_def)
  have "tree t' ! nat p = tree t1 ! nat p" using fr pn by blast
  also have "\<dots> = v" using lo hi len by (simp add: t1_def xs_def p_def)
  finally have leaf: "tree t' ! nat p = v" .
  have frame: "\<forall>j. int j \<noteq> p \<and> int j \<notin> set (ancestors (p div 2)) \<longrightarrow> tree t' ! j = tree t ! j"
  proof (intro allI impI)
    fix j assume j: "int j \<noteq> p \<and> int j \<notin> set (ancestors (p div 2))"
    with fr have "tree t' ! j = tree t1 ! j" by simp
    also have "\<dots> = tree t ! j"
    proof -
      from j lo hi have "nat p \<noteq> j" by (auto simp: p_def)
      then show ?thesis by (simp add: t1_def xs_def)
    qed
    finally show "tree t' ! j = tree t ! j" .
  qed
  have wf': "wf_tree t'" using wf1 c n by (simp add: wf_tree_def)
  have pc: "capacity t + i = p" by (simp add: p_def)
  show ?thesis
    unfolding pc using unf r c o wf' leaf frame ok by (simp add: t1_def)
qed

lemma setitem_invariant:
  assumes wf: "wf_tree t" and inv: "fold_invariant t" and lo: "0 \<le> i" and hi: "i < capacity t"
  shows "\<exists>t'. setitem t i v = Inr t' \<and> capacity t' = capacity t \<and> operation t' = operation t
      \<and> wf_tree t' \<and> fold_invariant t'"
proof -
  define p where "p = capacity t + i"
  from setitem_spec [OF wf lo hi, of v] obtain t' where
    r: "setitem t i v = Inr t'" and
    c: "capacity t' = capacity t" and
    o: "operation t' = operation t" and
    w: "wf_tree t'" and
    fr: "\<forall>j. int j \<noteq> p \<and> int j \<notin> set (ancestors (p div 2)) \<longrightarrow> tree t' ! j = tree t ! j" and
    ok: "\<forall>a \<in> set (ancestors (p div 2)). node_ok t' a"
    unfolding p_def by blast
  have "node_ok t' j" if j: "1 \<le> j \<and> j < capacity t'" for j
  proof (cases "j \<in> set (ancestors (p div 2))")
    case True
    with ok show ?thesis by blast
  next
    case False
    have jp: "j \<noteq> p" using j c lo by (simp add: p_def)
    have ch: "c' \<noteq> p \<and> c' \<notin> set (ancestors (p div 2))" if c': "c' = 2 * j \<or> c' = 2 * j + 1" for c'
    proof
      have half: "c' div 2 = j" using c' by auto
      show "c' \<noteq> p"
      proof
        assume "c' = p"
        with half have "p div 2 = j" by simp
        with j have "j \<in> set (ancestors (p div 2))" by (simp add: ancestors_self)
        with False show False by simp
      qed
      show "c' \<notin> set (ancestors (p div 2))"
      proof
        assume "c' \<in> set (ancestors (p div 2))"
        then have "c' div 2 \<in> set (ancestors (p div 2))"
          using half j by (intro ancestors_parent) auto
        with half False show False by simp
      qed
    qed
    have e0: "tree t' ! nat j = tree t ! nat j" using fr jp False j by simp
    have e1: "tree t' ! nat (2 * j) = tree t ! nat (2 * j)"
      using fr ch [of "2 * j"] j by simp
    have e2: "tree t' ! nat (2 * j + 1) = tree t ! nat (2 * j + 1)"
      using fr ch [of "2 * j + 1"] j by simp
    from inv j c have "node_ok t j" by (simp add: fold_invariant_iff)
    then show ?thesis using e0 e1 e2 o by (simp add: node_ok_def)
  qed
  then have "fold_invariant t'" by (simp add: fold_invariant_iff)
  with r c o w show ?thesis by blast
qed

lemma set_all_invariant:
  "wf_tree t \<Longrightarrow> fold_invariant t \<Longrightarrow> \<forall>(i, v) \<in> set ops. 0 \<le> i \<and> i < capacity t \<Longrightarrow>
   \<exists>t'. set_all t ops = Inr t' \<and> capacity t' = capacity t \<and> operation t' = operation t
      \<and> wf_tree t' \<and> fold_invariant t'"
proof (induction ops arbitrary: t)
  case Nil
  then show ?case by simp
next
  case (Cons x ops)
  obtain i v where x: "x = (i, v)" by (cases x)
  with Cons.prems have rng: "0 \<le> i" "i < capacity t" by auto
  from setitem_invariant [OF Cons.prems(1,2) rng, of v] obtain t1 where
    r: "setitem t i v = Inr t1" and c: "capacity t1 = capacity t"
    and o: "operation t1 = operation t" and w: "wf_tree t1" and f: "fold_invariant t1"
    by blast
  from Cons.prems(3) c have "\<forall>(i, v) \<in> set ops. 0 \<le> i \<and> i < capacity t1" by auto
  from Cons.IH [OF w f this] obtain t' where
    "set_all t1 ops = Inr t'" "capacity t' = capacity t1" "operation t' = operation t1"
    "wf_tree t'" "fold_invariant t'" by blast
  with r c o x show ?case by simp
qed

lemma init_wf: "wf_tree (SegmentTree_init cap op e)"
  by (simp add: wf_tree_def SegmentTree_init_def)

lemma init_invariant: "op e e = e \<Longrightarrow> fold_invariant (SegmentTree_init cap op e)"
  by (auto simp: fold_invariant_iff node_ok_def SegmentTree_init_def)

lemma ancestors_below: "a \<in> set (ancestors ((c + i) div 2)) \<Longrightarrow> i < c \<Longrightarrow> a < c"
  using ancestors_bounds [of a "(c + i) div 2"] by linarith

lemma foldl_shift:
  assumes assoc: "\<And>x y z. f (f x y) z = f x (f y z)"
    and idl: "\<And>x. f e x = x" and idr: "\<And>x. f x e = x"
  shows "foldl f a ys = f a (foldl f e ys)"
proof (induction ys arbitrary: a)
  case Nil
  show ?case by (simp add: idr)
next
  case (Cons y ys)
  have "foldl f a (y # ys) = foldl f (f a y) ys" by simp
  also have "\<dots> = f (f a y) (foldl f e ys)" by (rule Cons.IH)
  also have "\<dots> = f a (f y (foldl f e ys))" by (rule assoc)
  also have "f y (foldl f e ys) = foldl f y ys" by (rule Cons.IH [symmetric])
  also have "foldl f y ys = foldl f e (y # ys)" by (simp add: idl)
  finally show ?case .
qed

lemma naive_fold_split:
  assumes assoc: "\<And>x y z. operation t (operation t x y) z = operation t x (operation t y z)"
    and idl: "\<And>x. operation t e x = x" and idr: "\<And>x. operation t x e = x"
    and ab: "a \<le> b" and bc: "b \<le> c"
  shows "naive_fold t e a c = operation t (naive_fold t e a b) (naive_fold t e b c)"
proof -
  have "[a..c - 1] = [a..b - 1] @ [b..c - 1]"
    using ab bc upto_split1 [of a b "c - 1"]
    by (cases "b = c") auto
  then have "naive_fold t e a c =
      foldl (operation t) (naive_fold t e a b) (map (leaf t) [b..c - 1])"
    by (simp add: naive_fold_def)
  also have "\<dots> = operation t (naive_fold t e a b) (naive_fold t e b c)"
    unfolding naive_fold_def [of t e b c]
    by (rule foldl_shift [where f = "operation t", OF assoc idl idr])
  finally show ?thesis .
qed

lemma naive_fold_single:
  "operation t e (leaf t a) = leaf t a \<Longrightarrow> naive_fold t e a (a + 1) = leaf t a"
  by (simp add: naive_fold_def)


lemma node_value:
  assumes inv: "fold_invariant t"
    and assoc: "\<And>x y z. operation t (operation t x y) z = operation t x (operation t y z)"
    and idl: "\<And>x. operation t e x = x" and idr: "\<And>x. operation t x e = x"
  shows "1 \<le> n \<Longrightarrow> n * 2 ^ h = capacity t + ns \<Longrightarrow> 0 \<le> ns \<Longrightarrow> ns + 2 ^ h \<le> capacity t \<Longrightarrow>
         tree t ! nat n = naive_fold t e ns (ns + 2 ^ h)"
proof (induction h arbitrary: n ns)
  case 0
  then have "n = capacity t + ns" by simp
  then have "tree t ! nat n = leaf t ns" by (simp add: leaf_def)
  then show ?case using naive_fold_single [of t e ns] idl by simp
next
  case (Suc h)
  define w :: int where "w = 2 ^ h"
  have wpos: "1 \<le> w" by (simp add: w_def)
  have pw: "(2::int) ^ Suc h = 2 * w" by (simp add: w_def)
  from Suc.prems have eq: "n * (2 * w) = capacity t + ns" and up: "ns + 2 * w \<le> capacity t"
    by (simp_all add: w_def)
  have "n * 2 \<le> n * (2 * w)" using Suc.prems(1) wpos by (simp add: mult_le_cancel_left)
  with eq up wpos have nlt: "n < capacity t" by linarith
  with inv Suc.prems(1) have ok: "node_ok t n" by (simp add: fold_invariant_iff)
  have IH: "\<And>n ns. 1 \<le> n \<Longrightarrow> n * w = capacity t + ns \<Longrightarrow> 0 \<le> ns \<Longrightarrow> ns + w \<le> capacity t \<Longrightarrow>
      tree t ! nat n = naive_fold t e ns (ns + w)"
    using Suc.IH by (simp add: w_def)
  have l: "tree t ! nat (2 * n) = naive_fold t e ns (ns + w)"
  proof (rule IH)
    show "1 \<le> 2 * n" using Suc.prems(1) by simp
    show "2 * n * w = capacity t + ns" using eq by (simp add: algebra_simps)
    show "0 \<le> ns" by (rule Suc.prems(3))
    show "ns + w \<le> capacity t" using up wpos by linarith
  qed
  have "tree t ! nat (2 * n + 1) = naive_fold t e (ns + w) (ns + w + w)"
  proof (rule IH)
    show "1 \<le> 2 * n + 1" using Suc.prems(1) by simp
    show "(2 * n + 1) * w = capacity t + (ns + w)" using eq by (simp add: algebra_simps)
    show "0 \<le> ns + w" using Suc.prems(3) wpos by linarith
    show "ns + w + w \<le> capacity t" using up by linarith
  qed
  moreover have "ns + w + w = ns + 2 * w" by simp
  ultimately have r: "tree t ! nat (2 * n + 1) = naive_fold t e (ns + w) (ns + 2 * w)"
    by simp
  have "naive_fold t e ns (ns + 2 * w) =
      operation t (naive_fold t e ns (ns + w)) (naive_fold t e (ns + w) (ns + 2 * w))"
    using wpos by (intro naive_fold_split assoc idl idr) auto
  with ok l r have "tree t ! nat n = naive_fold t e ns (ns + 2 * w)"
    unfolding node_ok_def by presburger
  then show ?case by (simp add: w_def)
qed


lemma node_in_range:
  assumes wf: "wf_tree t" and n1: "1 \<le> n" and eq: "n * 2 ^ h = capacity t + ns"
    and up: "ns + 2 ^ h \<le> capacity t"
  shows "py_getitem (tree t) n = Inr (tree t ! nat n)"
proof -
  have "(1::int) \<le> 2 ^ h" by simp
  with n1 have "n * 1 \<le> n * 2 ^ h" by (intro mult_left_mono) auto
  with eq up \<open>1 \<le> 2 ^ h\<close> have "n < 2 * capacity t" by linarith
  moreover from this n1 wf have "int (length (tree t)) = 2 * capacity t"
    by (simp add: wf_tree_def)
  ultimately show ?thesis using n1 by (intro py_getitem_in) auto
qed

lemma operate_helper_fold:
  assumes wf: "wf_tree t" and inv: "fold_invariant t"
    and assoc: "\<And>x y z. operation t (operation t x y) z = operation t x (operation t y z)"
    and idl: "\<And>x. operation t e x = x" and idr: "\<And>x. operation t x e = x"
  shows "1 \<le> n \<Longrightarrow> n * 2 ^ h = capacity t + ns \<Longrightarrow> 0 \<le> ns \<Longrightarrow> ns + 2 ^ h \<le> capacity t \<Longrightarrow>
         ns \<le> s \<Longrightarrow> s \<le> e' \<Longrightarrow> e' \<le> ns + 2 ^ h - 1 \<Longrightarrow>
         operate_helper t s e' n ns (ns + 2 ^ h - 1) = Some (Inr (naive_fold t e s (e' + 1)))"
proof (induction h arbitrary: n ns s e')
  case 0
  then have se: "s = ns" "e' = ns" by simp_all
  have "py_getitem (tree t) n = Inr (tree t ! nat n)"
    using wf "0.prems"(1,2,4) by (rule node_in_range)
  moreover have "tree t ! nat n = naive_fold t e ns (ns + 2 ^ 0)"
    using "0.prems"(1-4) by (rule node_value [OF inv assoc idl idr])
  ultimately show ?case using se by (subst operate_helper.simps) simp
next
  case (Suc h)
  define w :: int where "w = 2 ^ h"
  define ne where "ne = ns + 2 * w - 1"
  have wpos: "1 \<le> w" by (simp add: w_def)
  have ne: "ns + 2 ^ Suc h - 1 = ne" by (simp add: ne_def w_def)
  from Suc.prems have n1: "1 \<le> n" and eq: "n * (2 * w) = capacity t + ns" and ns0: "0 \<le> ns"
    and up: "ns + 2 * w \<le> capacity t" and s1: "ns \<le> s" and s2: "s \<le> e'" and s3: "e' \<le> ne"
    by (simp_all add: w_def ne_def)
  have IH: "\<And>n ns s e'. 1 \<le> n \<Longrightarrow> n * w = capacity t + ns \<Longrightarrow> 0 \<le> ns \<Longrightarrow> ns + w \<le> capacity t \<Longrightarrow>
         ns \<le> s \<Longrightarrow> s \<le> e' \<Longrightarrow> e' \<le> ns + w - 1 \<Longrightarrow>
         operate_helper t s e' n ns (ns + w - 1) = Some (Inr (naive_fold t e s (e' + 1)))"
    using Suc.IH by (simp add: w_def)
  have mid: "(ns + ne) div 2 = ns + w - 1" unfolding ne_def by presburger
  have eqL: "2 * n * w = capacity t + ns" using eq by (simp add: algebra_simps)
  have eqR: "(2 * n + 1) * w = capacity t + (ns + w)" using eq by (simp add: algebra_simps)
  have neR: "ns + w + w - 1 = ne" by (simp add: ne_def)
  show ?case
  proof (cases "s = ns \<and> e' = ne")
    case True
    have "py_getitem (tree t) n = Inr (tree t ! nat n)"
      using wf Suc.prems(1,2,4) by (rule node_in_range)
    moreover have "tree t ! nat n = naive_fold t e ns (ns + 2 ^ Suc h)"
      using Suc.prems(1-4) by (rule node_value [OF inv assoc idl idr])
    moreover have "ns + 2 ^ Suc h = ne + 1" by (simp add: ne_def w_def)
    ultimately show ?thesis unfolding ne using True by (subst operate_helper.simps) simp
  next
    case False
    note nf = False
    show ?thesis
    proof (cases "e' \<le> ns + w - 1")
      case True
      have "operate_helper t s e' n ns ne = operate_helper t s e' (2 * n) ns (ns + w - 1)"
        using nf True by (subst operate_helper.simps) (auto simp: mid)
      also have "\<dots> = Some (Inr (naive_fold t e s (e' + 1)))"
        using n1 eqL ns0 up wpos s1 s2 True by (intro IH) linarith+
      finally show ?thesis unfolding ne .
    next
      case False
      note nl = False
      show ?thesis
      proof (cases "ns + w \<le> s")
        case True
        have "operate_helper t s e' n ns ne = operate_helper t s e' (2 * n + 1) (ns + w) ne"
          using nf nl True by (subst operate_helper.simps) (auto simp: mid)
        also have "\<dots> = operate_helper t s e' (2 * n + 1) (ns + w) (ns + w + w - 1)"
          by (simp only: neR)
        also have "\<dots> = Some (Inr (naive_fold t e s (e' + 1)))"
          using n1 eqR ns0 up wpos s1 s2 s3 True by (intro IH) (auto simp: ne_def)
        finally show ?thesis unfolding ne .
      next
        case False
        have L: "operate_helper t s (ns + w - 1) (2 * n) ns (ns + w - 1)
            = Some (Inr (naive_fold t e s (ns + w)))"
          using IH [of "2 * n" ns s "ns + w - 1"] n1 eqL ns0 up wpos s1 False by simp
        have "operate_helper t (ns + w) e' (2 * n + 1) (ns + w) (ns + w + w - 1)
            = Some (Inr (naive_fold t e (ns + w) (e' + 1)))"
          using n1 eqR ns0 up wpos s3 nl by (intro IH) (auto simp: ne_def)
        then have R: "operate_helper t (ns + w) e' (2 * n + 1) (ns + w) ne
            = Some (Inr (naive_fold t e (ns + w) (e' + 1)))"
          by (simp only: neR)
        have "operate_helper t s e' n ns ne =
            Some (Inr (operation t (naive_fold t e s (ns + w)) (naive_fold t e (ns + w) (e' + 1))))"
          using nf nl False L R by (subst operate_helper.simps) (auto simp: mid)
        also have "operation t (naive_fold t e s (ns + w)) (naive_fold t e (ns + w) (e' + 1))
            = naive_fold t e s (e' + 1)"
          using False nl by (intro naive_fold_split [symmetric] assoc idl idr) auto
        finally show ?thesis unfolding ne .
      qed
    qed
  qed
qed


lemma operate_fold:
  assumes wf: "wf_tree t" and inv: "fold_invariant t"
    and assoc: "\<And>x y z. operation t (operation t x y) z = operation t x (operation t y z)"
    and idl: "\<And>x. operation t e x = x" and idr: "\<And>x. operation t x e = x"
    and cap: "capacity t = 2 ^ k"
    and lo: "0 \<le> start" and ne: "start < end'" and hi: "end' \<le> capacity t"
  shows "operate t start end' = Some (Inr (naive_fold t e start end'))"
proof -
  have "operate_helper t start (end' - 1) 1 0 (0 + 2 ^ k - 1)
      = Some (Inr (naive_fold t e start (end' - 1 + 1)))"
    using cap lo ne hi by (intro operate_helper_fold [OF wf inv assoc idl idr]) auto
  moreover have "operate t start end' = operate_helper t start (end' - 1) 1 0 (capacity t - 1)"
    using lo ne by (simp add: operate_def)
  ultimately show ?thesis using cap by simp
qed

lemma retrieve_loop_step:
  assumes wf: "wf_tree t" and lo: "1 \<le> idx" and hi: "idx < capacity t"
  shows "retrieve_loop t idx ub =
    (if tree t ! nat (2 * idx) > ub then retrieve_loop t (2 * idx) ub
     else retrieve_loop t (2 * idx + 1) (ub - tree t ! nat (2 * idx)))"
proof -
  from wf lo hi have "int (length (tree t)) = 2 * capacity t" by (simp add: wf_tree_def)
  then have "py_getitem (tree t) (2 * idx) = Inr (tree t ! nat (2 * idx))"
    using lo hi by (intro py_getitem_in) auto
  with hi show ?thesis by (subst retrieve_loop.simps) (simp add: Let_def)
qed

lemma retrieve_loop_leaf:
  "capacity t \<le> idx \<Longrightarrow> retrieve_loop t idx ub = Some (Inr (idx - capacity t))"
  by (subst retrieve_loop.simps) simp

lemma retrieve_loop_total:
  assumes wf: "wf_tree t"
  shows "1 \<le> idx \<Longrightarrow> idx < 2 * capacity t \<Longrightarrow>
    \<exists>i. retrieve_loop t idx ub = Some (Inr i) \<and> 0 \<le> i \<and> i < capacity t"
proof (induction "nat (2 * capacity t - idx)" arbitrary: idx ub rule: less_induct)
  case less
  show ?case
  proof (cases "idx < capacity t")
    case False
    with less.prems show ?thesis by (simp add: retrieve_loop_leaf)
  next
    case True
    note step = retrieve_loop_step [OF wf less.prems(1) True, of ub]
    show ?thesis
    proof (cases "tree t ! nat (2 * idx) > ub")
      case left: True
      have "\<exists>i. retrieve_loop t (2 * idx) ub = Some (Inr i) \<and> 0 \<le> i \<and> i < capacity t"
        using less.prems True by (intro less.hyps) auto
      with step left show ?thesis by simp
    next
      case right: False
      have "\<exists>i. retrieve_loop t (2 * idx + 1) (ub - tree t ! nat (2 * idx)) = Some (Inr i)
          \<and> 0 \<le> i \<and> i < capacity t"
        using less.prems True by (intro less.hyps) auto
      with step right show ?thesis by simp
    qed
  qed
qed

lemma fresh_sum_rightmost:
  assumes ub: "0 \<le> ub"
  shows "j + d = k \<Longrightarrow>
    retrieve_loop (SumSegmentTree (2 ^ k)) (2 * 2 ^ j - 1) ub = Some (Inr (2 ^ k - 1))"
proof (induction d arbitrary: j)
  case 0
  then have "j = k" by simp
  then show ?case
    by (simp add: retrieve_loop_leaf SumSegmentTree_def SegmentTree_init_def)
next
  case (Suc d)
  let ?T = "SumSegmentTree (2 ^ k)"
  let ?idx = "2 * 2 ^ j - 1 :: int"
  from Suc.prems have "Suc j \<le> k" by simp
  then have "(2::int) ^ Suc j \<le> 2 ^ k" by (intro power_increasing) auto
  then have lt: "?idx < capacity ?T"
    by (simp add: SumSegmentTree_def SegmentTree_init_def)
  have "(1::int) \<le> 2 ^ j" by simp
  then have ge: "1 \<le> ?idx" by linarith
  have wf: "wf_tree ?T" by (simp add: SumSegmentTree_def init_wf)
  have "nat (2 * ?idx) < nat (2 * 2 ^ k)" using lt ge
    by (simp add: SumSegmentTree_def SegmentTree_init_def)
  then have z: "tree ?T ! nat (2 * ?idx) = 0"
    by (simp add: SumSegmentTree_def SegmentTree_init_def)
  have "retrieve_loop ?T ?idx ub = retrieve_loop ?T (2 * ?idx + 1) ub"
    using retrieve_loop_step [OF wf ge lt, of ub] z ub by simp
  also have "2 * ?idx + 1 = 2 * 2 ^ Suc j - 1" by simp
  also have "retrieve_loop ?T (2 * 2 ^ Suc j - 1) ub = Some (Inr (2 ^ k - 1))"
    using Suc.prems by (intro Suc.IH) simp
  finally show ?case .
qed


subsection \<open>The fold invariant\<close>

text \<open>
  Claim C3. From a freshly constructed tree, whose \<open>2 * capacity\<close> slots all hold the
  initial value \<open>e\<close>, any finite sequence of \<open>set(index, value)\<close> calls with indices in
  \<open>[0, capacity)\<close> succeeds, and afterwards every internal node \<open>i\<close> in \<open>[1, capacity)\<close>
  satisfies \<open>tree[i] == operation(tree[2i], tree[2i+1])\<close>. Of the identity only
  \<open>operation(e, e) == e\<close> is used; the capacity need not be a power of two.
\<close>

theorem invariant_after_sets:
  assumes idem: "op e e = e"
    and rng: "\<forall>(i, v) \<in> set ops. 0 \<le> i \<and> i < cap"
  shows "\<exists>t'. set_all (SegmentTree_init cap op e) ops = Inr t' \<and> capacity t' = cap \<and>
    (\<forall>i. 1 \<le> i \<and> i < cap \<longrightarrow>
       tree t' ! nat i = op (tree t' ! nat (2 * i)) (tree t' ! nat (2 * i + 1)))"
proof -
  let ?t = "SegmentTree_init cap op e"
  have c0: "capacity ?t = cap" and o0: "operation ?t = op"
    by (simp_all add: SegmentTree_init_def)
  from rng c0 have "\<forall>(i, v) \<in> set ops. 0 \<le> i \<and> i < capacity ?t" by simp
  from set_all_invariant [OF init_wf init_invariant [of op e cap, OF idem] this] obtain t' where
    r: "set_all ?t ops = Inr t'" and c: "capacity t' = capacity ?t"
    and o: "operation t' = operation ?t" and f: "fold_invariant t'"
    by blast
  from f c c0 o o0 have "\<forall>i. 1 \<le> i \<and> i < cap \<longrightarrow>
       tree t' ! nat i = op (tree t' ! nat (2 * i)) (tree t' ! nat (2 * i + 1))"
    by (simp add: fold_invariant_iff node_ok_def)
  with r c c0 show ?thesis by simp
qed

text \<open>
  An instance: capacity 4 with addition, after \<open>set(0,1); set(1,2); set(2,3); set(3,4)\<close>.
\<close>

theorem invariant_after_sets_witness:
  "(0::real) + 0 = 0 \<and>
   list_all (\<lambda>(i, v). 0 \<le> i \<and> i < (4::int)) [(0, 1), (1, 2), (2, 3), (3, 4::real)] \<and>
   (\<exists>t'. set_all (SegmentTree_init 4 (+) 0) [(0, 1), (1, 2), (2, 3), (3, 4::real)] = Inr t' \<and>
      capacity t' = 4 \<and>
      (\<forall>i. 1 \<le> i \<and> i < 4 \<longrightarrow>
         tree t' ! nat i = tree t' ! nat (2 * i) + tree t' ! nat (2 * i + 1)))"
  using invariant_after_sets [of "(+)" "0::real" "[(0, 1), (1, 2), (2, 3), (3, 4)]" 4]
  by simp

subsection \<open>Point update\<close>

text \<open>
  Claim C6. For a tree with its \<open>2 * capacity\<close> slots and an index \<open>i\<close> in
  \<open>[0, capacity)\<close>, \<open>set(i, v)\<close> succeeds, writes \<open>v\<close> to slot \<open>capacity + i\<close> and
  recomputes each ancestor of that leaf as the operation of its two children. No slot
  other than the leaf and its ancestors changes; in particular every other leaf slot,
  and so \<open>get(j)\<close> for every \<open>j \<noteq> i\<close> in \<open>[0, capacity)\<close>, is as before.
\<close>

theorem setitem_frame:
  assumes wf: "wf_tree t" and lo: "0 \<le> i" and hi: "i < capacity t"
  shows "\<exists>t'. setitem t i v = Inr t' \<and> capacity t' = capacity t
     \<and> tree t' ! nat (capacity t + i) = v
     \<and> (\<forall>a \<in> set (ancestors ((capacity t + i) div 2)).
          tree t' ! nat a = operation t (tree t' ! nat (2 * a)) (tree t' ! nat (2 * a + 1)))
     \<and> (\<forall>s. int s \<noteq> capacity t + i \<and> int s \<notin> set (ancestors ((capacity t + i) div 2))
          \<longrightarrow> tree t' ! s = tree t ! s)
     \<and> (\<forall>s. capacity t \<le> s \<and> s < 2 * capacity t \<and> s \<noteq> capacity t + i
          \<longrightarrow> tree t' ! nat s = tree t ! nat s)
     \<and> (\<forall>j. 0 \<le> j \<and> j < capacity t \<and> j \<noteq> i \<longrightarrow> getitem t' j = getitem t j)"
proof -
  let ?p = "capacity t + i"
  from setitem_spec [OF wf lo hi, of v] obtain t' where
    r: "setitem t i v = Inr t'" and
    c: "capacity t' = capacity t" and
    o: "operation t' = operation t" and
    w: "wf_tree t'" and
    leaf: "tree t' ! nat ?p = v" and
    fr: "\<forall>j. int j \<noteq> ?p \<and> int j \<notin> set (ancestors (?p div 2)) \<longrightarrow> tree t' ! j = tree t ! j" and
    ok: "\<forall>a \<in> set (ancestors (?p div 2)). node_ok t' a"
    by blast
  from ok o have anc: "\<forall>a \<in> set (ancestors (?p div 2)).
      tree t' ! nat a = operation t (tree t' ! nat (2 * a)) (tree t' ! nat (2 * a + 1))"
    by (simp add: node_ok_def)
  have leaves: "tree t' ! nat s = tree t ! nat s"
    if s: "capacity t \<le> s \<and> s < 2 * capacity t \<and> s \<noteq> ?p" for s
  proof -
    have "s \<notin> set (ancestors (?p div 2))" using ancestors_below [of s "capacity t" i] hi s by auto
    moreover have "int (nat s) = s" using s lo hi by simp
    ultimately show ?thesis using fr s by (metis)
  qed
  from wf lo hi have len: "int (length (tree t)) = 2 * capacity t" by (simp add: wf_tree_def)
  from w c lo hi have len': "int (length (tree t')) = 2 * capacity t" by (simp add: wf_tree_def)
  have gets: "getitem t' j = getitem t j" if j: "0 \<le> j \<and> j < capacity t \<and> j \<noteq> i" for j
  proof -
    have "tree t' ! nat (capacity t + j) = tree t ! nat (capacity t + j)"
      using leaves [of "capacity t + j"] j by simp
    moreover have "py_getitem (tree t') (capacity t + j) = Inr (tree t' ! nat (capacity t + j))"
      using j len' by (intro py_getitem_in) auto
    moreover have "py_getitem (tree t) (capacity t + j) = Inr (tree t ! nat (capacity t + j))"
      using j len by (intro py_getitem_in) auto
    ultimately show ?thesis by (simp add: getitem_def c)
  qed
  from r c leaf anc fr leaves gets show ?thesis by blast
qed

text \<open>An instance: \<open>set(2, 7)\<close> on a fresh sum tree of capacity 4.\<close>

theorem setitem_frame_witness:
  "wf_tree (SumSegmentTree 4) \<and>
   (\<exists>t'. setitem (SumSegmentTree 4) 2 7 = Inr t' \<and> capacity t' = 4
     \<and> tree t' ! nat (4 + 2) = 7
     \<and> (\<forall>a \<in> set (ancestors ((4 + 2) div 2)).
          tree t' ! nat a = tree t' ! nat (2 * a) + tree t' ! nat (2 * a + 1))
     \<and> (\<forall>s. int s \<noteq> 4 + 2 \<and> int s \<notin> set (ancestors ((4 + 2) div 2))
          \<longrightarrow> tree t' ! s = tree (SumSegmentTree 4) ! s)
     \<and> (\<forall>s. 4 \<le> s \<and> s < 2 * 4 \<and> s \<noteq> 4 + 2
          \<longrightarrow> tree t' ! nat s = tree (SumSegmentTree 4) ! nat s)
     \<and> (\<forall>j. 0 \<le> j \<and> j < 4 \<and> j \<noteq> 2 \<longrightarrow> getitem t' j = getitem (SumSegmentTree 4) j))"
  using setitem_frame [of "SumSegmentTree 4" 2 7]
  by (simp add: wf_tree_def SumSegmentTree_def SegmentTree_init_def)

text \<open>
  Claim C10. For a tree with its \<open>2 * capacity\<close> slots, an index \<open>i\<close> in
  \<open>[0, capacity)\<close> and any value \<open>v\<close>, \<open>set(i, v)\<close> succeeds and \<open>get(i)\<close> on the
  updated tree returns \<open>v\<close>.
\<close>

theorem set_then_get:
  assumes wf: "wf_tree t" and lo: "0 \<le> i" and hi: "i < capacity t"
  shows "\<exists>t'. setitem t i v = Inr t' \<and> getitem t' i = Inr v"
proof -
  from setitem_spec [OF wf lo hi, of v] obtain t' where
    r: "setitem t i v = Inr t'" and
    c: "capacity t' = capacity t" and
    w: "wf_tree t'" and
    leaf: "tree t' ! nat (capacity t + i) = v"
    by blast
  from w c lo hi have "int (length (tree t')) = 2 * capacity t" by (simp add: wf_tree_def)
  then have "py_getitem (tree t') (capacity t + i) = Inr (tree t' ! nat (capacity t + i))"
    using lo hi by (intro py_getitem_in) auto
  with leaf c have "getitem t' i = Inr v" by (simp add: getitem_def)
  with r show ?thesis by blast
qed

text \<open>An instance: \<open>set(3, 2.5)\<close> on a fresh minimum tree of capacity 8.\<close>

theorem set_then_get_witness:
  "wf_tree (MinSegmentTree 8) \<and>
   (\<exists>t'. setitem (MinSegmentTree 8) 3 (Fin 2.5) = Inr t' \<and> getitem t' 3 = Inr (Fin 2.5))"
  using set_then_get [of "MinSegmentTree 8" 3 "Fin 2.5"]
  by (simp add: wf_tree_def MinSegmentTree_def SegmentTree_init_def)

subsection \<open>Indices out of range\<close>

text \<open>
  Claim C5 says that \<open>set\<close> fails for every index below 0 or not below the capacity.
  The source checks no index: the only failure is the \<open>IndexError\<close> of the list
  assignment \<open>tree[capacity + index] = val\<close>, and Python accepts a negative list index.
  With index \<open>-1\<close> on a fresh sum tree of capacity 4 the call returns, having written
  the internal slot 3 and recomputed the root.
\<close>

theorem setitem_negative_index_counterexample:
  "setitem (SumSegmentTree 4) (-1) 5 =
     Inr \<lparr>capacity = 4, tree = [0, 5, 0, 5, 0, 0, 0, 0], operation = (+)\<rparr>"
  by (simp add: SumSegmentTree_def SegmentTree_init_def setitem_def setitem_loop.simps
      py_getitem_def py_setitem_def eval_nat_numeral)

text \<open>
  Claim C5, amended. For a tree with its \<open>2 * capacity\<close> slots, \<open>set(index, value)\<close>
  raises \<open>IndexError\<close> with the tree unchanged exactly when \<open>index >= capacity\<close> or
  \<open>index < -3 * capacity\<close>; for every other index, the negative ones in
  \<open>[-3 * capacity, 0)\<close> included, it does not.
\<close>

theorem setitem_index_error:
  assumes wf: "wf_tree t"
  shows "setitem t index v = Inl (IndexError, t) \<longleftrightarrow>
         capacity t \<le> index \<or> index < - 3 * capacity t"
proof (cases "capacity t \<le> index \<or> index < - 3 * capacity t")
  case True
  with wf have "py_setitem (tree t) (index + capacity t) v = Inl IndexError"
    by (auto simp: py_setitem_def wf_tree_def)
  with True show ?thesis by (simp add: setitem_def)
next
  case False
  define p where "p = index + capacity t"
  from False wf have len: "int (length (tree t)) = 2 * capacity t"
    by (auto simp: wf_tree_def)
  have "\<exists>xs. py_setitem (tree t) p v = Inr xs \<and> length xs = length (tree t)"
  proof (cases "0 \<le> p")
    case True
    with False len show ?thesis by (simp add: py_setitem_def p_def)
  next
    case neg: False
    with False len show ?thesis by (simp add: py_setitem_def p_def)
  qed
  then obtain xs where s1: "py_setitem (tree t) p v = Inr xs"
    and lx: "length xs = length (tree t)"
    by blast
  define t1 where "t1 = t\<lparr>tree := xs\<rparr>"
  have wf1: "wf_tree t1" using wf lx by (simp add: wf_tree_def t1_def)
  have lt1: "p div 2 < capacity t1" using False by (auto simp: t1_def p_def)
  from setitem_loop_spec [OF wf1 lt1] obtain t' where "setitem_loop t1 (p div 2) = Inr t'"
    by blast
  with s1 have "setitem t index v = Inr t'"
    by (simp add: setitem_def p_def [symmetric] t1_def)
  with False show ?thesis by simp
qed

text \<open>Instances: the indices 4 and \<open>-13\<close> on a fresh sum tree of capacity 4.\<close>

theorem setitem_index_error_witness:
  "wf_tree (SumSegmentTree 4) \<and>
   setitem (SumSegmentTree 4) 4 5 = Inl (IndexError, SumSegmentTree 4) \<and>
   setitem (SumSegmentTree 4) (-13) 5 = Inl (IndexError, SumSegmentTree 4)"
  using setitem_index_error [of "SumSegmentTree 4" 4 5]
    setitem_index_error [of "SumSegmentTree 4" "-13" 5]
  by (simp add: wf_tree_def SumSegmentTree_def SegmentTree_init_def)

subsection \<open>Range fold\<close>



text \<open>
  Claim C4 says that every \<open>end <= 0\<close> is treated as \<open>end = capacity\<close>. The source adds
  the capacity to such an \<open>end\<close>, so a negative \<open>end\<close> is an offset from the last element:
  on the sum tree over the leaves 1, 2, 3, 4, \<open>operate(0, -1)\<close> folds the first three
  leaves, not all four.
\<close>

theorem operate_end_counterexample:
  "operate \<lparr>capacity = 4, tree = [0, 10, 3, 7, 1, 2, 3, 4::real], operation = (+)\<rparr> 0 (-1) = Some (Inr 6) \<and>
   operate \<lparr>capacity = 4, tree = [0, 10, 3, 7, 1, 2, 3, 4::real], operation = (+)\<rparr> 0 (capacity \<lparr>capacity = 4, tree = [0, 10, 3, 7, 1, 2, 3, 4::real], operation = (+)\<rparr>) = Some (Inr 10)"
  by (simp add: operate_def operate_helper.simps py_getitem_def)

text \<open>
  Claim C4, amended. An \<open>end <= 0\<close> is treated as \<open>end + capacity\<close>: for
  \<open>-capacity < end <= 0\<close>, \<open>operate(start, end)\<close> equals
  \<open>operate(start, end + capacity)\<close>. For \<open>end = 0\<close> this is \<open>operate(start, capacity)\<close>, and
  \<open>operate(0, 0)\<close> folds the entire structure (under the hypotheses of claim C2).
\<close>

theorem operate_nonpositive_end:
  "(- capacity t < end' \<and> end' \<le> 0 \<longrightarrow>
      operate t start end' = operate t start (end' + capacity t)) \<and>
   (0 < capacity t \<longrightarrow> operate t start 0 = operate t start (capacity t)) \<and>
   (capacity t = 2 ^ k \<and> wf_tree t \<and> fold_invariant t \<and>
    (\<forall>x y z. operation t (operation t x y) z = operation t x (operation t y z)) \<and>
    (\<forall>x. operation t e x = x \<and> operation t x e = x) \<longrightarrow>
      operate t 0 0 = Some (Inr (naive_fold t e 0 (capacity t))))"
proof (intro conjI impI)
  assume "- capacity t < end' \<and> end' \<le> 0"
  then show "operate t start end' = operate t start (end' + capacity t)"
    by (simp add: operate_def)
next
  assume "0 < capacity t"
  then show "operate t start 0 = operate t start (capacity t)"
    by (simp add: operate_def)
next
  assume a: "capacity t = 2 ^ k \<and> wf_tree t \<and> fold_invariant t \<and>
    (\<forall>x y z. operation t (operation t x y) z = operation t x (operation t y z)) \<and>
    (\<forall>x. operation t e x = x \<and> operation t x e = x)"
  then have cpos: "0 < capacity t" by simp
  then have "operate t 0 0 = operate t 0 (capacity t)" by (simp add: operate_def)
  also have "\<dots> = Some (Inr (naive_fold t e 0 (capacity t)))"
    using a cpos by (intro operate_fold [where k = k]) auto
  finally show "operate t 0 0 = Some (Inr (naive_fold t e 0 (capacity t)))" .
qed

text \<open>An instance: the sum tree over the leaves 1, 2, 3, 4.\<close>

theorem operate_nonpositive_end_witness:
  "operate \<lparr>capacity = 4, tree = [0, 10, 3, 7, 1, 2, 3, 4::real], operation = (+)\<rparr> 1 (-1) = operate \<lparr>capacity = 4, tree = [0, 10, 3, 7, 1, 2, 3, 4::real], operation = (+)\<rparr> 1 3 \<and>
   operate \<lparr>capacity = 4, tree = [0, 10, 3, 7, 1, 2, 3, 4::real], operation = (+)\<rparr> 1 (-1) = Some (Inr 5) \<and>
   operate \<lparr>capacity = 4, tree = [0, 10, 3, 7, 1, 2, 3, 4::real], operation = (+)\<rparr> 1 0 = operate \<lparr>capacity = 4, tree = [0, 10, 3, 7, 1, 2, 3, 4::real], operation = (+)\<rparr> 1 4 \<and>
   wf_tree \<lparr>capacity = 4, tree = [0, 10, 3, 7, 1, 2, 3, 4::real], operation = (+)\<rparr> \<and> fold_invariant \<lparr>capacity = 4, tree = [0, 10, 3, 7, 1, 2, 3, 4::real], operation = (+)\<rparr> \<and>
   operate \<lparr>capacity = 4, tree = [0, 10, 3, 7, 1, 2, 3, 4::real], operation = (+)\<rparr> 0 0 = Some (Inr (naive_fold \<lparr>capacity = 4, tree = [0, 10, 3, 7, 1, 2, 3, 4::real], operation = (+)\<rparr> 0 0 4)) \<and>
   naive_fold \<lparr>capacity = 4, tree = [0, 10, 3, 7, 1, 2, 3, 4::real], operation = (+)\<rparr> 0 0 4 = 10"
  using operate_nonpositive_end [where t = "\<lparr>capacity = 4, tree = [0, 10, 3, 7, 1, 2, 3, 4::real], operation = (+)\<rparr>" and end' = "-1" and start = 1 and k = 2 and e = 0]
  by (simp add: wf_tree_def fold_invariant_def node_ok_def upto.simps operate_def
      operate_helper.simps py_getitem_def naive_fold_def leaf_def)

subsection \<open>The minimum tree\<close>

text \<open>
  Claim C9. A freshly constructed \<open>MinSegmentTree\<close> of capacity at least one is filled
  with plus infinity and \<open>min(0, 0)\<close> on it returns plus infinity. For capacity 8,
  \<open>min(0, 0)\<close> is plus infinity, and after \<open>set(3, 2.5)\<close> alone it is 2.5.
\<close>

theorem min_tree_untouched:
  "(0 < cap \<longrightarrow>
      tree (MinSegmentTree cap) = replicate (nat (2 * cap)) PInf \<and>
      min_tree (MinSegmentTree cap) 0 0 = Some (Inr PInf)) \<and>
   min_tree (MinSegmentTree 8) 0 0 = Some (Inr PInf) \<and>
   (\<exists>t'. setitem (MinSegmentTree 8) 3 (Fin 2.5) = Inr t' \<and>
      min_tree t' 0 0 = Some (Inr (Fin 2.5)))"
proof (intro conjI impI)
  assume "0 < cap"
  then show "tree (MinSegmentTree cap) = replicate (nat (2 * cap)) PInf"
    by (simp add: MinSegmentTree_def SegmentTree_init_def)
next
  assume "0 < cap"
  then show "min_tree (MinSegmentTree cap) 0 0 = Some (Inr PInf)"
    by (simp add: min_tree_def operate_def operate_helper.simps py_getitem_def
        MinSegmentTree_def SegmentTree_init_def)
next
  show "min_tree (MinSegmentTree 8) 0 0 = Some (Inr PInf)"
    by (simp add: min_tree_def operate_def operate_helper.simps py_getitem_def
        MinSegmentTree_def SegmentTree_init_def)
next
  have "setitem (MinSegmentTree 8) 3 (Fin 2.5) =
      Inr \<lparr>capacity = 8,
        tree = [PInf, Fin 2.5, Fin 2.5, PInf, PInf, Fin 2.5, PInf, PInf,
                PInf, PInf, PInf, Fin 2.5, PInf, PInf, PInf, PInf],
        operation = py_min\<rparr>"
    by (simp add: MinSegmentTree_def SegmentTree_init_def setitem_def setitem_loop.simps
        py_getitem_def py_setitem_def py_min_def eval_nat_numeral)
  then show "\<exists>t'. setitem (MinSegmentTree 8) 3 (Fin 2.5) = Inr t' \<and>
      min_tree t' 0 0 = Some (Inr (Fin 2.5))"
    by (simp add: min_tree_def operate_def operate_helper.simps py_getitem_def)
qed

text \<open>An instance of the general part: capacity 4.\<close>

theorem min_tree_untouched_witness:
  "(0::int) < 4 \<and> tree (MinSegmentTree 4) = replicate (nat (2 * 4)) PInf \<and>
   min_tree (MinSegmentTree 4) 0 0 = Some (Inr PInf)"
  using min_tree_untouched [of 4] by simp

subsection \<open>Descent of \<open>retrieve\<close>\<close>



text \<open>
  Claim C8. For a sum tree of capacity \<open>2 ^ k\<close> with its \<open>2 * capacity\<close> slots,
  \<open>retrieve(upperbound)\<close> returns, and returns an index in \<open>[0, capacity)\<close>, whatever the
  stored values and the upper bound are; so it does when all leaves are zero. On the
  freshly constructed tree, all zero, every upper bound that is not negative gives the last
  index \<open>capacity - 1\<close>: \<open>0 > upperbound\<close> is false, and the descent goes right each time.
\<close>

theorem retrieve_defined:
  "(capacity t = 2 ^ k \<and> wf_tree t \<longrightarrow>
      (\<exists>i. retrieve t ub = Some (Inr i) \<and> 0 \<le> i \<and> i < capacity t)) \<and>
   (0 \<le> ub \<longrightarrow> retrieve (SumSegmentTree (2 ^ k)) ub = Some (Inr (2 ^ k - 1)))"
proof (intro conjI impI)
  assume a: "capacity t = 2 ^ k \<and> wf_tree t"
  have "(1::int) \<le> 2 ^ k" by simp
  with a have "1 < 2 * capacity t" by linarith
  with a show "\<exists>i. retrieve t ub = Some (Inr i) \<and> 0 \<le> i \<and> i < capacity t"
    unfolding retrieve_def by (intro retrieve_loop_total) auto
next
  assume "0 \<le> ub"
  from fresh_sum_rightmost [OF this, of 0 k k]
  show "retrieve (SumSegmentTree (2 ^ k)) ub = Some (Inr (2 ^ k - 1))"
    by (simp add: retrieve_def)
qed

text \<open>An instance: \<open>retrieve(0)\<close> on the fresh sum tree of capacity 4.\<close>

theorem retrieve_defined_witness:
  "capacity (SumSegmentTree 4) = 2 ^ 2 \<and> wf_tree (SumSegmentTree 4) \<and>
   (\<exists>i. retrieve (SumSegmentTree 4) 0 = Some (Inr i) \<and> 0 \<le> i \<and> i < capacity (SumSegmentTree 4)) \<and>
   retrieve (SumSegmentTree (2 ^ 2)) 0 = Some (Inr (2 ^ 2 - 1))"
  using retrieve_defined [of "SumSegmentTree 4" 2 0]
  by (simp add: wf_tree_def SumSegmentTree_def SegmentTree_init_def)

subsection \<open>Sampling by prefix sums\<close>




end
